theory Spec2Isabelle
  imports Main "HOL-Library.AList" "HOL-Library.Sublist"
begin

section \<open>Data model\<close>

text \<open>
  The hash function of \<^verbatim>\<open>Utils.py\<close> is SHA-256 from the standard library, and the wire
  format of a block is left to the concrete block class (\<^verbatim>\<open>BaseBlock.serialize\<close> raises
  \<^verbatim>\<open>NotImplementedError\<close>). Both are taken as parameters: \<open>'b\<close> is the type of
  serialised blocks, \<open>'h\<close> the type of hashes, \<open>H :: 'b \<Rightarrow> 'h\<close> stands for
  \<^verbatim>\<open>ascii_hash\<close>, and a value of type \<open>block_cls\<close> stands for the block class that
  a chain is configured with.

  A block refers to its chain through \<^verbatim>\<open>_chain\<close>; as the chain's cache refers back to
  its blocks, chains live in a store of objects (\<open>world\<close>) and \<^verbatim>\<open>_chain\<close> is a
  reference into it.
\<close>

type_synonym chain_ref = nat

record ('p, 'h) block =
  index :: int
  payload :: "'p option"
  fingers :: "(int \<times> 'h) list"
  block_chain :: "chain_ref option"

record ('p, 'h, 'b) block_cls =
  serialize :: "('p, 'h) block \<Rightarrow> 'b"
  deserialize :: "'b \<Rightarrow> ('p, 'h) block"
  pre_commit :: "('p, 'h) block \<Rightarrow> ('p, 'h) block"

text \<open>
  \<^verbatim>\<open>Chain\<close>: the object store is a \<^verbatim>\<open>DictionaryStore\<close>, modelled by its backend
  dictionary; the cache is a dictionary from hashes to blocks; the head is a hash or
  \<^verbatim>\<open>None\<close>.
\<close>

record ('p, 'h, 'b) chain =
  object_store :: "'h \<rightharpoonup> 'b"
  cache :: "'h \<rightharpoonup> ('p, 'h) block"
  head :: "'h option"

type_synonym ('p, 'h, 'b) world = "chain_ref \<Rightarrow> ('p, 'h, 'b) chain"

text \<open>
  Exceptions are values. \<^verbatim>\<open>ValueError\<close> carries its message (the numbers that the
  range message is formatted with are left out); \<^verbatim>\<open>IndexError\<close> is the
  \<^verbatim>\<open>[...][0]\<close> of an empty list and \<^verbatim>\<open>AttributeError\<close> the \<^verbatim>\<open>.index\<close> of
  \<^verbatim>\<open>None\<close>. An operation that raises loses the state it had reached.
\<close>

datatype error =
    ValueError string
  | IntegrityValidationError string
  | IndexError
  | AttributeError

text \<open>
  What \<^verbatim>\<open>get_block_by_index\<close> returns: \<^verbatim>\<open>None\<close>, a block, or a pair of a block and
  the evidence, an \<^verbatim>\<open>OrderedDict\<close> kept as an association list in insertion order.
\<close>

datatype ('p, 'h) lookup =
    NoBlock
  | Found "('p, 'h) block"
  | FoundWithEvidence "('p, 'h) block" "('h \<times> ('p, 'h) block) list"

section \<open>Utils.py and Store.py\<close>

text \<open>
  \<open>store_get\<close> and \<open>store_put\<close> are \<^verbatim>\<open>DictionaryStore.get\<close> and
  \<^verbatim>\<open>DictionaryStore.put\<close>, on the backend dictionary.
\<close>

definition check_hash :: "('b \<Rightarrow> 'h) \<Rightarrow> 'h \<Rightarrow> 'b \<Rightarrow> error + unit" where
  "check_hash H hsh item =
     (if hsh \<noteq> H item then Inl (IntegrityValidationError ''Object has wrong hash.'')
      else Inr ())"

definition store_get :: "('b \<Rightarrow> 'h) \<Rightarrow> ('h \<rightharpoonup> 'b) \<Rightarrow> 'h \<Rightarrow> bool \<Rightarrow> error + 'b option" where
  "store_get H backend obj_hash check_integrity =
     (let serialized_obj = backend obj_hash in
      if serialized_obj \<noteq> None \<and> check_integrity then
        (case check_hash H obj_hash (the serialized_obj) of
           Inl e \<Rightarrow> Inl e
         | Inr _ \<Rightarrow> Inr serialized_obj)
      else Inr serialized_obj)"

definition store_put :: "('b \<Rightarrow> 'h) \<Rightarrow> ('h \<rightharpoonup> 'b) \<Rightarrow> 'b \<Rightarrow> ('h \<rightharpoonup> 'b)" where
  "store_put H backend serialized_obj =
     (let obj_hash = H serialized_obj in backend(obj_hash \<mapsto> serialized_obj))"

section \<open>Chain.py: blocks\<close>

definition hid :: "('p, 'h, 'b) block_cls \<Rightarrow> ('b \<Rightarrow> 'h) \<Rightarrow> ('p, 'h) block \<Rightarrow> 'h" where
  "hid cls H b = H (serialize cls b)"

definition skipchain_indices :: "int \<Rightarrow> int set" where
  "skipchain_indices idx = set (map (\<lambda>f. idx - 1 - ((idx - 1) mod 2 ^ f)) [0..<64])"

text \<open>
  \<^verbatim>\<open>BaseBlock.make_next_block\<close>. Of the constructor arguments that the source forwards,
  the payload is kept (\<open>pl\<close>).
\<close>

definition make_next_block ::
  "('p, 'h, 'b) block_cls \<Rightarrow> ('b \<Rightarrow> 'h) \<Rightarrow> ('p, 'h) block option \<Rightarrow> chain_ref option \<Rightarrow>
   'p option \<Rightarrow> ('p, 'h) block" where
  "make_next_block cls H current_block ch pl =
     (case current_block of
        None \<Rightarrow> \<lparr>index = 0, payload = pl, fingers = [], block_chain = ch\<rparr>
      | Some cur \<Rightarrow>
          (let new_index = index cur + 1;
               newfingers = [(index cur, hid cls H cur)];
               finger_index = skipchain_indices new_index;
               newfingers = newfingers @ filter (\<lambda>f. fst f \<in> finger_index) (fingers cur)
           in \<lparr>index = new_index, payload = pl, fingers = newfingers, block_chain = ch\<rparr>))"

section \<open>Chain.py: chains\<close>

text \<open>
  \<open>Chain_init\<close> is the constructor called with a store and a block class: the cache is
  empty and there is no head. The block class is the parameter \<open>cls\<close> of the operations.
\<close>

definition Chain_init :: "('h \<rightharpoonup> 'b) \<Rightarrow> ('p, 'h, 'b) chain" where
  "Chain_init st = \<lparr>object_store = st, cache = Map.empty, head = None\<rparr>"

definition commit_block ::
  "('p, 'h, 'b) block_cls \<Rightarrow> ('b \<Rightarrow> 'h) \<Rightarrow> ('p, 'h, 'b) chain \<Rightarrow> ('p, 'h) block \<Rightarrow>
   ('p, 'h, 'b) chain" where
  "commit_block cls H c b =
     c\<lparr>head := Some (hid cls H b),
       cache := (cache c)(hid cls H b \<mapsto> b),
       object_store := store_put H (object_store c) (serialize cls b)\<rparr>"

definition get_block_by_hid ::
  "('p, 'h, 'b) block_cls \<Rightarrow> ('b \<Rightarrow> 'h) \<Rightarrow> ('p, 'h, 'b) chain \<Rightarrow> 'h \<Rightarrow>
   error + (('p, 'h) block option \<times> ('p, 'h, 'b) chain)" where
  "get_block_by_hid cls H c h =
     (case cache c h of
        Some b \<Rightarrow> Inr (Some b, c)
      | None \<Rightarrow>
          (case store_get H (object_store c) h True of
             Inl e \<Rightarrow> Inl e
           | Inr None \<Rightarrow> Inr (None, c)
           | Inr (Some raw_block) \<Rightarrow>
               (let b = deserialize cls raw_block
                in Inr (Some b, c\<lparr>cache := (cache c)(h \<mapsto> b)\<rparr>))))"

text \<open>\<^verbatim>\<open>head_block\<close>; no hash is \<^verbatim>\<open>None\<close>, so an absent head resolves to no block.\<close>

definition head_block ::
  "('p, 'h, 'b) block_cls \<Rightarrow> ('b \<Rightarrow> 'h) \<Rightarrow> ('p, 'h, 'b) chain \<Rightarrow>
   error + (('p, 'h) block option \<times> ('p, 'h, 'b) chain)" where
  "head_block cls H c =
     (case head c of
        None \<Rightarrow> Inr (None, c)
      | Some h \<Rightarrow> get_block_by_hid cls H c h)"

definition Chain_make_next_block ::
  "('p, 'h, 'b) block_cls \<Rightarrow> ('b \<Rightarrow> 'h) \<Rightarrow> chain_ref \<Rightarrow> 'p option \<Rightarrow> ('p, 'h, 'b) world \<Rightarrow>
   error + (('p, 'h) block \<times> ('p, 'h, 'b) world)" where
  "Chain_make_next_block cls H r pl w =
     (case head_block cls H (w r) of
        Inl e \<Rightarrow> Inl e
      | Inr (hb, c) \<Rightarrow> Inr (make_next_block cls H hb (Some r) pl, w(r := c)))"

text \<open>
  \<^verbatim>\<open>BaseBlock.commit\<close>. The hook works on the block in place, and \<^verbatim>\<open>self._chain\<close> is
  read again after it. The block as the hook left it is returned with the new state.
  \<^verbatim>\<open>BaseBlock.pre_commit\<close> does nothing; an overriding hook is a function on blocks.
\<close>

definition commit ::
  "('p, 'h, 'b) block_cls \<Rightarrow> ('b \<Rightarrow> 'h) \<Rightarrow> ('p, 'h) block \<Rightarrow> ('p, 'h, 'b) world \<Rightarrow>
   error + (('p, 'h) block \<times> ('p, 'h, 'b) world)" where
  "commit cls H b w =
     (case block_chain b of
        None \<Rightarrow> Inl (ValueError ''Chain undefined.'')
      | Some _ \<Rightarrow>
          (let b' = pre_commit cls b
           in case block_chain b' of
                None \<Rightarrow> Inl AttributeError
              | Some r \<Rightarrow> Inr (b', w(r := commit_block cls H (w r) b'))))"

text \<open>
  The loop of \<^verbatim>\<open>get_block_by_index\<close>. Nothing in the source bounds the number of
  hops (fingers are not validated), so the loop is a partial function: \<open>None\<close> is a
  traversal that never returns.
\<close>

partial_function (option) follow_fingers ::
  "('p, 'h, 'b) block_cls \<Rightarrow> ('b \<Rightarrow> 'h) \<Rightarrow> int \<Rightarrow> bool \<Rightarrow> 'h \<Rightarrow> ('p, 'h) block option \<Rightarrow>
   ('h \<times> ('p, 'h) block) list \<Rightarrow> ('p, 'h, 'b) chain \<Rightarrow>
   (error + (('p, 'h) lookup \<times> ('p, 'h, 'b) chain)) option" where
  "follow_fingers cls H idx return_evidence h current_block evidence c =
     (case current_block of
        None \<Rightarrow> Some (Inr (NoBlock, c))
      | Some cur \<Rightarrow>
          (let evidence' = (if return_evidence then AList.update h cur evidence else evidence)
           in if idx = index cur then
                (if return_evidence then Some (Inr (FoundWithEvidence cur evidence', c))
                 else Some (Inr (Found cur, c)))
              else
                (case filter (\<lambda>fh. fst fh \<ge> idx) (fingers cur) of
                   [] \<Rightarrow> Some (Inl IndexError)
                 | fh # _ \<Rightarrow>
                     (case get_block_by_hid cls H c (snd fh) of
                        Inl e \<Rightarrow> Some (Inl e)
                      | Inr (nxt, c') \<Rightarrow>
                          follow_fingers cls H idx return_evidence (snd fh) nxt evidence' c'))))"

definition get_block_by_index ::
  "('p, 'h, 'b) block_cls \<Rightarrow> ('b \<Rightarrow> 'h) \<Rightarrow> ('p, 'h, 'b) chain \<Rightarrow> int \<Rightarrow> bool \<Rightarrow>
   (error + (('p, 'h) lookup \<times> ('p, 'h, 'b) chain)) option" where
  "get_block_by_index cls H c idx return_evidence =
     (case head c of
        None \<Rightarrow> Some (Inr (NoBlock, c))
      | Some h \<Rightarrow>
          (case head_block cls H c of
             Inl e \<Rightarrow> Some (Inl e)
           | Inr (None, c1) \<Rightarrow> Some (Inl AttributeError)
           | Inr (Some hb, c1) \<Rightarrow>
               if \<not> (0 \<le> idx \<and> idx \<le> index hb) then
                 Some (Inl (ValueError ''Block is beyond this chain head.''))
               else
                 (case head_block cls H c1 of
                    Inl e \<Rightarrow> Some (Inl e)
                  | Inr (current_block, c2) \<Rightarrow>
                      follow_fingers cls H idx return_evidence h current_block [] c2)))"

section \<open>Building a chain\<close>

text \<open>
  One round of the loop that the tests build their chains with:
  \<^verbatim>\<open>block = chain.make_next_block(); block.payload = p; block.commit()\<close>.
\<close>

definition append_block ::
  "('p, 'h, 'b) block_cls \<Rightarrow> ('b \<Rightarrow> 'h) \<Rightarrow> chain_ref \<Rightarrow> 'p \<Rightarrow> ('p, 'h, 'b) world \<Rightarrow>
   error + (('p, 'h) block \<times> ('p, 'h, 'b) world)" where
  "append_block cls H r p w =
     (case Chain_make_next_block cls H r None w of
        Inl e \<Rightarrow> Inl e
      | Inr (b, w1) \<Rightarrow> commit cls H (b\<lparr>payload := Some p\<rparr>) w1)"

text \<open>The whole loop; it hands back the committed blocks in order, and the final state.\<close>

fun append_blocks ::
  "('p, 'h, 'b) block_cls \<Rightarrow> ('b \<Rightarrow> 'h) \<Rightarrow> chain_ref \<Rightarrow> 'p list \<Rightarrow> ('p, 'h, 'b) world \<Rightarrow>
   error + (('p, 'h) block list \<times> ('p, 'h, 'b) world)" where
  "append_blocks cls H r [] w = Inr ([], w)"
| "append_blocks cls H r (p # ps) w =
     (case append_block cls H r p w of
        Inl e \<Rightarrow> Inl e
      | Inr (b, w1) \<Rightarrow>
          (case append_blocks cls H r ps w1 of
             Inl e \<Rightarrow> Inl e
           | Inr (bs, w2) \<Rightarrow> Inr (b # bs, w2)))"

section \<open>The specification's reading of the finger indices\<close>

definition skipchain_indices_spec :: "int \<Rightarrow> int set" where
  "skipchain_indices_spec idx = {(idx - 1) - ((idx - 1) mod 2 ^ f) | f. f \<in> {0..63::nat}}"

section \<open>A concrete block class\<close>

text \<open>
  The block class of the tests serialises a block as the JSON document of its index,
  payload and fingers, and reads it back without a chain. Here the document is kept as a
  term, and where a concrete hash is needed the document stands for its own hash, which
  makes the hash free of collisions.
\<close>

datatype document = Document int "string option" "(int \<times> document) list"

definition SerializableBlock :: "(string, document, document) block_cls" where
  "SerializableBlock =
     \<lparr>serialize = (\<lambda>b. Document (index b) (payload b) (fingers b)),
      deserialize = (\<lambda>d. case d of Document i p fs \<Rightarrow>
                       \<lparr>index = i, payload = p, fingers = fs, block_chain = None\<rparr>),
      pre_commit = (\<lambda>b. b)\<rparr>"

section \<open>What is assumed of the hash, the codec and the hook\<close>

text \<open>
  The hash is free of collisions on serialised blocks. The codec gives back the index,
  payload and fingers it was given, and serialises blocks with the same index, payload
  and fingers to the same bytes. The hook leaves index, fingers and chain alone (it is
  there to finish or sign the payload).
\<close>

definition collision_free :: "('p, 'h, 'b) block_cls \<Rightarrow> ('b \<Rightarrow> 'h) \<Rightarrow> bool" where
  "collision_free cls H \<longleftrightarrow>
     (\<forall>b b'. hid cls H b = hid cls H b' \<longrightarrow> serialize cls b = serialize cls b')"

definition codec_ok :: "('p, 'h, 'b) block_cls \<Rightarrow> bool" where
  "codec_ok cls \<longleftrightarrow>
     (\<forall>b. index (deserialize cls (serialize cls b)) = index b
        \<and> payload (deserialize cls (serialize cls b)) = payload b
        \<and> fingers (deserialize cls (serialize cls b)) = fingers b)
     \<and> (\<forall>b b'. index b = index b' \<and> payload b = payload b' \<and> fingers b = fingers b'
           \<longrightarrow> serialize cls b = serialize cls b')"

definition hook_ok :: "('p, 'h, 'b) block_cls \<Rightarrow> bool" where
  "hook_ok cls \<longleftrightarrow>
     (\<forall>b. index (pre_commit cls b) = index b
        \<and> fingers (pre_commit cls b) = fingers b
        \<and> block_chain (pre_commit cls b) = block_chain b)"

definition well_behaved :: "('p, 'h, 'b) block_cls \<Rightarrow> ('b \<Rightarrow> 'h) \<Rightarrow> bool" where
  "well_behaved cls H \<longleftrightarrow> collision_free cls H \<and> codec_ok cls \<and> hook_ok cls"

section \<open>Blocks committed in order\<close>

text \<open>
  \<open>linked\<close>: the \<open>k\<close>-th block of the list has index \<open>k\<close> and the fingers that the
  factory derives from the block before it. \<open>holds\<close>: the chain's head is the hash of
  the last block of the list, and its cache has every block of the list under its hash.
\<close>

definition linked :: "('p, 'h, 'b) block_cls \<Rightarrow> ('b \<Rightarrow> 'h) \<Rightarrow> ('p, 'h) block list \<Rightarrow> bool" where
  "linked cls H bs \<longleftrightarrow>
     (\<forall>k < length bs.
        index (bs ! k) = int k
        \<and> fingers (bs ! k) =
            (if k = 0 then []
             else (int k - 1, hid cls H (bs ! (k - 1)))
                  # filter (\<lambda>f. fst f \<in> skipchain_indices (int k)) (fingers (bs ! (k - 1)))))"

definition holds ::
  "('p, 'h, 'b) block_cls \<Rightarrow> ('b \<Rightarrow> 'h) \<Rightarrow> ('p, 'h) block list \<Rightarrow> ('p, 'h, 'b) chain \<Rightarrow> bool" where
  "holds cls H bs c \<longleftrightarrow>
     head c = (if bs = [] then None else Some (hid cls H (last bs)))
     \<and> (\<forall>k < length bs. cache c (hid cls H (bs ! k)) = Some (bs ! k))"

text \<open>
  The evidence after the loop of \<open>get_block_by_index\<close> has gone from block \<open>k\<close> of the
  list down to block \<open>i\<close>, one block at a time, starting with the evidence \<open>ev\<close>.
\<close>

definition visited ::
  "('p, 'h, 'b) block_cls \<Rightarrow> ('b \<Rightarrow> 'h) \<Rightarrow> ('p, 'h) block list \<Rightarrow> nat \<Rightarrow> nat \<Rightarrow>
   ('h \<times> ('p, 'h) block) list \<Rightarrow> ('h \<times> ('p, 'h) block) list" where
  "visited cls H bs i k ev =
     fold (\<lambda>j e. AList.update (hid cls H (bs ! j)) (bs ! j) e) (rev [i..<Suc k]) ev"

section \<open>Replaying a lookup from its evidence\<close>

text \<open>
  As \<^verbatim>\<open>test_chain_evidence\<close> does: the evidence is serialised into a dictionary,
  \<^verbatim>\<open>{hid: block.serialize() for hid, block in evidence.items()}\<close>, and a fresh chain
  gets that dictionary as its store and the old head as its head.
\<close>

definition serialize_evidence ::
  "('p, 'h, 'b) block_cls \<Rightarrow> ('h \<times> ('p, 'h) block) list \<Rightarrow> ('h \<rightharpoonup> 'b)" where
  "serialize_evidence cls evidence =
     fold (\<lambda>(h, block) m. m(h \<mapsto> serialize cls block)) evidence Map.empty"

definition replay_chain ::
  "('p, 'h, 'b) block_cls \<Rightarrow> 'h option \<Rightarrow> ('h \<times> ('p, 'h) block) list \<Rightarrow> ('p, 'h, 'b) chain" where
  "replay_chain cls h evidence = (Chain_init (serialize_evidence cls evidence))\<lparr>head := h\<rparr>"

section \<open>Finger indices\<close>

text \<open>
  C5: \<open>skipchain_indices idx\<close> is the set of the values
  \<open>(idx - 1) - ((idx - 1) mod 2 ^ f)\<close> for \<open>f\<close> from 0 to 63, and the value at
  \<open>f = 0\<close> is \<open>idx - 1\<close>, the immediate predecessor.
\<close>

theorem skipchain_indices_refines_spec:
  "skipchain_indices idx = skipchain_indices_spec idx
   \<and> (idx - 1) - ((idx - 1) mod 2 ^ (0::nat)) = idx - 1
   \<and> idx - 1 \<in> skipchain_indices idx"
proof -
  have eq: "skipchain_indices idx = skipchain_indices_spec idx"
    unfolding skipchain_indices_def skipchain_indices_spec_def
    by (auto simp: image_iff)
  have m: "idx - 1 \<in> skipchain_indices_spec idx"
    unfolding skipchain_indices_spec_def
    by (intro CollectI exI [of _ "0::nat"]) simp
  from eq m show ?thesis by simp
qed

theorem skipchain_indices_refines_spec_witness:
  "skipchain_indices 6 = skipchain_indices_spec 6 \<and> (6::int) - 1 \<in> skipchain_indices 6"
  using skipchain_indices_refines_spec [of 6] by blast

text \<open>
  C10: for an index of at least 1, every member of \<open>skipchain_indices idx\<close> lies between
  0 and \<open>idx - 1\<close>, and \<open>idx - 1\<close> is a member. For index 0 the set is that of the 64
  negative values \<open>- 2 ^ f\<close>; the block made without a predecessor has no fingers, so no
  finger is computed from it.
\<close>

theorem skipchain_indices_range:
  "(1 \<le> idx \<longrightarrow> (\<forall>x \<in> skipchain_indices idx. 0 \<le> x \<and> x \<le> idx - 1)
                  \<and> idx - 1 \<in> skipchain_indices idx)
   \<and> skipchain_indices 0 = (\<lambda>f. - (2 ^ f)) ` {0..<64::nat}
   \<and> card (skipchain_indices 0) = 64
   \<and> (\<forall>x \<in> skipchain_indices 0. x < 0)
   \<and> fingers (make_next_block cls H None ch pl) = []"
proof -
  have a: "0 \<le> x \<and> x \<le> idx - 1" if "1 \<le> idx" "x \<in> skipchain_indices idx" for x
  proof -
    from that(2) obtain f :: nat where x: "x = idx - 1 - ((idx - 1) mod 2 ^ f)"
      by (auto simp: skipchain_indices_def)
    have "0 \<le> (idx - 1) mod 2 ^ f" by simp
    moreover have "(idx - 1) mod 2 ^ f \<le> idx - 1"
      using that(1) by (intro zmod_le_nonneg_dividend) simp
    ultimately show ?thesis using x by linarith
  qed
  have b: "idx - 1 \<in> skipchain_indices idx"
    unfolding skipchain_indices_def by (auto simp: image_iff intro!: bexI [of _ "0::nat"])
  have c: "skipchain_indices 0 = (\<lambda>f. - (2 ^ f)) ` {0..<64::nat}"
    unfolding skipchain_indices_def by (simp add: zmod_minus1 del: upt_rec_numeral)
  have "inj_on (\<lambda>f::nat. - ((2::int) ^ f)) {0..<64}"
    by (rule inj_onI) simp
  then have d: "card (skipchain_indices 0) = 64"
    unfolding c by (simp add: card_image)
  have e: "\<forall>x \<in> skipchain_indices 0. x < 0"
    unfolding c by auto
  have g: "fingers (make_next_block cls H None ch pl) = []"
    by (simp add: make_next_block_def)
  from a b c d e g show ?thesis by blast
qed

theorem skipchain_indices_range_witness:
  "(1::int) \<le> 6 \<and> (4::int) \<in> skipchain_indices 6 \<and> (0::int) \<le> 4 \<and> (4::int) \<le> 6 - 1
   \<and> (6::int) - 1 \<in> skipchain_indices 6"
proof -
  have m: "(4::int) \<in> skipchain_indices 6"
    unfolding skipchain_indices_def by (auto simp: image_iff intro!: bexI [of _ "1::nat"])
  from skipchain_indices_range [of 6 SerializableBlock id None None] m
  show ?thesis by auto
qed

section \<open>The successor factory\<close>

text \<open>
  C4: with a predecessor \<open>cur\<close>, \<open>make_next_block\<close> gives a block of index
  \<open>index cur + 1\<close> whose first finger is \<open>(index cur, hid cur)\<close>, followed by the fingers
  of \<open>cur\<close> whose target index is in \<open>skipchain_indices (index cur + 1)\<close>, in the order
  they have in \<open>cur\<close>.
\<close>

theorem make_next_block_present:
  "index (make_next_block cls H (Some cur) ch pl) = index cur + 1
   \<and> fingers (make_next_block cls H (Some cur) ch pl) =
       (index cur, hid cls H cur)
       # filter (\<lambda>f. fst f \<in> skipchain_indices (index cur + 1)) (fingers cur)
   \<and> hd (fingers (make_next_block cls H (Some cur) ch pl)) = (index cur, hid cls H cur)
   \<and> subseq (tl (fingers (make_next_block cls H (Some cur) ch pl))) (fingers cur)
   \<and> set (tl (fingers (make_next_block cls H (Some cur) ch pl))) =
       {f \<in> set (fingers cur). fst f \<in> skipchain_indices (index cur + 1)}"
  by (simp add: make_next_block_def Let_def)

section \<open>The object store\<close>

text \<open>
  C8: a checked \<open>get\<close> raises the integrity error exactly when bytes are stored under the
  key and do not hash to it, and it raises nothing else; an unknown key gives \<open>None\<close>
  without error. So, for a hash without collisions, once the bytes stored under their own
  hash are replaced by other bytes, a checked fetch of that hash raises the integrity
  error.
\<close>

theorem store_get_integrity:
  "(store_get H backend key True = Inl (IntegrityValidationError ''Object has wrong hash.''))
     = (\<exists>s. backend key = Some s \<and> H s \<noteq> key)
   \<and> ((\<exists>e. store_get H backend key True = Inl e) = (\<exists>s. backend key = Some s \<and> H s \<noteq> key))
   \<and> (backend key = None \<longrightarrow> store_get H backend key True = Inr None)
   \<and> (inj H \<longrightarrow> H s = key \<longrightarrow> s' \<noteq> s \<longrightarrow>
        store_get H (backend(key \<mapsto> s')) key True
          = Inl (IntegrityValidationError ''Object has wrong hash.''))"
  by (auto simp: store_get_def check_hash_def Let_def dest: injD)

theorem store_get_integrity_witness:
  "(Map.empty :: nat \<rightharpoonup> nat) 1 = None
   \<and> store_get (\<lambda>n::nat. n) Map.empty 1 True = Inr None
   \<and> inj (\<lambda>n::nat. n) \<and> (2::nat) \<noteq> 1
   \<and> store_get (\<lambda>n::nat. n) (Map.empty(1 \<mapsto> 2)) 1 True
        = Inl (IntegrityValidationError ''Object has wrong hash.'')"
  using store_get_integrity [of "\<lambda>n::nat. n" Map.empty 1 1 2] by simp

section \<open>Committing a block\<close>

text \<open>
  C9: \<open>commit\<close> raises the error of the undefined chain exactly when the block has no
  chain. When it has one, no \<^verbatim>\<open>ValueError\<close> is raised: the hook runs first and the
  chain's \<open>commit_block\<close> then takes the block as the hook left it.
\<close>

theorem commit_chain_undefined:
  "(commit cls H b w = Inl (ValueError ''Chain undefined.'')) = (block_chain b = None)
   \<and> (block_chain b \<noteq> None \<longrightarrow> commit cls H b w \<noteq> Inl (ValueError m))
   \<and> (block_chain b \<noteq> None \<longrightarrow> block_chain (pre_commit cls b) = Some r \<longrightarrow>
        commit cls H b w
          = Inr (pre_commit cls b, w(r := commit_block cls H (w r) (pre_commit cls b))))"
  by (auto simp: commit_def Let_def split: option.splits)

theorem commit_chain_undefined_witness:
  "block_chain (make_next_block SerializableBlock id None (Some 0) (Some ''Test.'')) \<noteq> None
   \<and> commit SerializableBlock id
        (make_next_block SerializableBlock id None (Some 0) (Some ''Test.''))
        (\<lambda>_. Chain_init Map.empty)
      = Inr (make_next_block SerializableBlock id None (Some 0) (Some ''Test.''),
             (\<lambda>_. Chain_init Map.empty)
               (0 := commit_block SerializableBlock id (Chain_init Map.empty)
                       (make_next_block SerializableBlock id None (Some 0) (Some ''Test.''))))"
  using commit_chain_undefined
    [of SerializableBlock id
        "make_next_block SerializableBlock id None (Some 0) (Some ''Test.'')"
        "\<lambda>_. Chain_init Map.empty" "[]" 0]
  by (simp add: make_next_block_def SerializableBlock_def)

section \<open>The chain after a run of commits\<close>

lemma collision_freeD:
  "collision_free cls H \<Longrightarrow> hid cls H b = hid cls H b' \<Longrightarrow> serialize cls b = serialize cls b'"
  unfolding collision_free_def by blast

lemma codec_ok_roundtrip:
  assumes "codec_ok cls"
  shows "index (deserialize cls (serialize cls b)) = index b"
    and "payload (deserialize cls (serialize cls b)) = payload b"
    and "fingers (deserialize cls (serialize cls b)) = fingers b"
  using assms unfolding codec_ok_def by blast+

lemma codec_ok_canonical:
  "codec_ok cls \<Longrightarrow> index b = index b' \<Longrightarrow> payload b = payload b' \<Longrightarrow> fingers b = fingers b'
   \<Longrightarrow> serialize cls b = serialize cls b'"
  unfolding codec_ok_def by blast

lemma hook_okD:
  assumes "hook_ok cls"
  shows "index (pre_commit cls b) = index b"
    and "fingers (pre_commit cls b) = fingers b"
    and "block_chain (pre_commit cls b) = block_chain b"
  using assms unfolding hook_ok_def by blast+

lemma well_behavedD:
  assumes "well_behaved cls H"
  shows "collision_free cls H" and "codec_ok cls" and "hook_ok cls"
  using assms unfolding well_behaved_def by blast+

lemma hid_index:
  assumes "well_behaved cls H" "hid cls H b = hid cls H b'"
  shows "index b = index b'"
proof -
  have "serialize cls b = serialize cls b'"
    by (rule collision_freeD [OF well_behavedD(1) [OF assms(1)] assms(2)])
  then have "index (deserialize cls (serialize cls b)) = index (deserialize cls (serialize cls b'))"
    by simp
  then show ?thesis
    by (simp only: codec_ok_roundtrip(1) [OF well_behavedD(2) [OF assms(1)]])
qed

lemma linked_index: "linked cls H bs \<Longrightarrow> k < length bs \<Longrightarrow> index (bs ! k) = int k"
  by (simp add: linked_def)

lemma linked_fingers:
  "linked cls H bs \<Longrightarrow> k < length bs \<Longrightarrow>
   fingers (bs ! k) =
     (if k = 0 then []
      else (int k - 1, hid cls H (bs ! (k - 1)))
           # filter (\<lambda>f. fst f \<in> skipchain_indices (int k)) (fingers (bs ! (k - 1))))"
  by (simp add: linked_def)

lemma holds_cache:
  "holds cls H bs c \<Longrightarrow> k < length bs \<Longrightarrow> cache c (hid cls H (bs ! k)) = Some (bs ! k)"
  by (simp add: holds_def)

lemma holds_head:
  "holds cls H bs c \<Longrightarrow> head c = (if bs = [] then None else Some (hid cls H (last bs)))"
  by (simp add: holds_def)

lemma linked_hid_inj:
  assumes "well_behaved cls H" "linked cls H bs" "j < length bs" "k < length bs"
    "hid cls H (bs ! j) = hid cls H (bs ! k)"
  shows "j = k"
  using hid_index [OF assms(1,5)] linked_index [OF assms(2,3)] linked_index [OF assms(2,4)]
  by simp

lemma holds_empty: "holds cls H [] (Chain_init st)"
  by (simp add: holds_def Chain_init_def)

lemma linked_empty: "linked cls H []"
  by (simp add: linked_def)

lemma head_block_holds:
  assumes "holds cls H bs c"
  shows "head_block cls H c = Inr (if bs = [] then None else Some (last bs), c)"
proof (cases "bs = []")
  case True
  with assms show ?thesis by (simp add: holds_def head_block_def)
next
  case False
  then have "length bs - 1 < length bs" by simp
  then have "cache c (hid cls H (bs ! (length bs - 1))) = Some (bs ! (length bs - 1))"
    by (rule holds_cache [OF assms])
  then have "cache c (hid cls H (last bs)) = Some (last bs)"
    using False by (simp add: last_conv_nth)
  with assms False show ?thesis
    by (simp add: holds_def head_block_def get_block_by_hid_def)
qed

lemma append_block_step:
  assumes wb: "well_behaved cls H" and l: "linked cls H bs" and h: "holds cls H bs (w r)"
  shows "\<exists>b w'. append_block cls H r p w = Inr (b, w')
           \<and> linked cls H (bs @ [b]) \<and> holds cls H (bs @ [b]) (w' r)"
proof -
  define cur where "cur = (if bs = [] then None else Some (last bs))"
  define b0 where "b0 = (make_next_block cls H cur (Some r) None)\<lparr>payload := Some p\<rparr>"
  define b where "b = pre_commit cls b0"
  define w' where "w' = w(r := commit_block cls H (w r) b)"
  have hk: "hook_ok cls" by (rule well_behavedD(3) [OF wb])
  note hkD = hook_okD [OF hk]
  have hb: "head_block cls H (w r) = Inr (cur, w r)"
    using head_block_holds [OF h] by (simp add: cur_def)
  have bc: "block_chain b = Some r"
    by (simp add: b_def b0_def hkD make_next_block_def Let_def split: option.splits)
  have mk: "Chain_make_next_block cls H r None w = Inr (make_next_block cls H cur (Some r) None, w)"
    using hb by (simp add: Chain_make_next_block_def)
  have bc0: "block_chain b0 = Some r"
    by (simp add: b0_def make_next_block_def Let_def split: option.splits)
  have cm: "commit cls H b0 w = Inr (b, w')"
    using bc bc0 by (simp add: commit_def Let_def b_def [symmetric] w'_def)
  have res: "append_block cls H r p w = Inr (b, w')"
    using mk cm by (simp add: append_block_def b0_def)
  have ib: "index b = int (length bs)"
  proof (cases "bs = []")
    case True
    then show ?thesis by (simp add: b_def b0_def cur_def hkD make_next_block_def)
  next
    case False
    then have "int (length bs - 1) = int (length bs) - 1"
      by (cases bs) simp_all
    with False have "index (last bs) = int (length bs) - 1"
      using linked_index [OF l, of "length bs - 1"] by (simp add: last_conv_nth)
    with False show ?thesis
      by (simp add: b_def b0_def cur_def hkD make_next_block_def Let_def)
  qed
  have fb: "fingers b =
      (if length bs = 0 then []
       else (int (length bs) - 1, hid cls H (bs ! (length bs - 1)))
            # filter (\<lambda>f. fst f \<in> skipchain_indices (int (length bs))) (fingers (bs ! (length bs - 1))))"
  proof (cases "bs = []")
    case True
    then show ?thesis by (simp add: b_def b0_def cur_def hkD make_next_block_def)
  next
    case False
    then have "int (length bs - 1) = int (length bs) - 1"
      by (cases bs) simp_all
    with False have "index (last bs) = int (length bs) - 1"
      using linked_index [OF l, of "length bs - 1"] by (simp add: last_conv_nth)
    with False show ?thesis
      by (simp add: b_def b0_def cur_def hkD make_next_block_def Let_def last_conv_nth)
  qed
  have l': "linked cls H (bs @ [b])"
    unfolding linked_def
  proof (intro allI impI)
    fix k assume k: "k < length (bs @ [b])"
    show "index ((bs @ [b]) ! k) = int k \<and>
          fingers ((bs @ [b]) ! k) =
            (if k = 0 then []
             else (int k - 1, hid cls H ((bs @ [b]) ! (k - 1)))
                  # filter (\<lambda>f. fst f \<in> skipchain_indices (int k)) (fingers ((bs @ [b]) ! (k - 1))))"
    proof (cases "k < length bs")
      case True
      then have k1: "k - 1 < length bs" by simp
      have "(bs @ [b]) ! k = bs ! k" "(bs @ [b]) ! (k - 1) = bs ! (k - 1)"
        using True k1 by (simp_all add: nth_append)
      with linked_index [OF l True] linked_fingers [OF l True] show ?thesis by simp
    next
      case False
      with k have "k = length bs" by simp
      then show ?thesis using ib fb by (simp add: nth_append)
    qed
  qed
  have ne: "hid cls H b \<noteq> hid cls H (bs ! k)" if "k < length bs" for k
  proof
    assume "hid cls H b = hid cls H (bs ! k)"
    from hid_index [OF wb this] ib linked_index [OF l that] that show False by simp
  qed
  have h': "holds cls H (bs @ [b]) (w' r)"
    unfolding holds_def
  proof (intro conjI allI impI)
    show "head (w' r) = (if bs @ [b] = [] then None else Some (hid cls H (last (bs @ [b]))))"
      by (simp add: w'_def commit_block_def)
  next
    fix k assume k: "k < length (bs @ [b])"
    show "cache (w' r) (hid cls H ((bs @ [b]) ! k)) = Some ((bs @ [b]) ! k)"
    proof (cases "k < length bs")
      case True
      from holds_cache [OF h True] have "cache (w r) (hid cls H (bs ! k)) = Some (bs ! k)" .
      moreover have "(bs @ [b]) ! k = bs ! k"
        using True by (simp add: nth_append)
      ultimately show ?thesis using ne [OF True]
        by (simp add: w'_def commit_block_def)
    next
      case False
      with k have "k = length bs" by simp
      then show ?thesis by (simp add: w'_def commit_block_def nth_append)
    qed
  qed
  from res l' h' show ?thesis by (intro exI conjI)
qed

lemma append_blocks_inv:
  assumes wb: "well_behaved cls H"
  shows "linked cls H bs0 \<Longrightarrow> holds cls H bs0 (w r) \<Longrightarrow>
         \<exists>bs w'. append_blocks cls H r ps w = Inr (bs, w') \<and> length bs = length ps
           \<and> linked cls H (bs0 @ bs) \<and> holds cls H (bs0 @ bs) (w' r)"
proof (induction ps arbitrary: bs0 w)
  case Nil
  then show ?case by simp
next
  case (Cons p ps)
  from append_block_step [of cls H bs0 w r p, OF wb Cons.prems]
  obtain b w1 where s: "append_block cls H r p w = Inr (b, w1)"
    and l1: "linked cls H (bs0 @ [b])" and h1: "holds cls H (bs0 @ [b]) (w1 r)"
    by blast
  from Cons.IH [of "bs0 @ [b]" w1, OF l1 h1]
  obtain bs w2 where t: "append_blocks cls H r ps w1 = Inr (bs, w2)" "length bs = length ps"
    and l2: "linked cls H ((bs0 @ [b]) @ bs)" and h2: "holds cls H ((bs0 @ [b]) @ bs) (w2 r)"
    by blast
  from s t l2 h2 show ?case by simp
qed

lemma append_blocks_fresh:
  assumes "well_behaved cls H" "w r = Chain_init st"
  shows "\<exists>bs w'. append_blocks cls H r ps w = Inr (bs, w') \<and> length bs = length ps
           \<and> linked cls H bs \<and> holds cls H bs (w' r)"
  using append_blocks_inv [of cls H "[]" w r ps, OF assms(1) linked_empty]
    holds_empty [of cls H st] assms(2)
  by simp

section \<open>Looking a block up by its index\<close>

lemma visited_same: "visited cls H bs i i ev = AList.update (hid cls H (bs ! i)) (bs ! i) ev"
  by (simp add: visited_def)

lemma visited_Suc:
  "i \<le> k \<Longrightarrow> visited cls H bs i (Suc k) ev
     = visited cls H bs i k (AList.update (hid cls H (bs ! Suc k)) (bs ! Suc k) ev)"
  by (simp add: visited_def)

lemma first_finger:
  assumes "linked cls H bs" "k < length bs" "i < k"
  shows "filter (\<lambda>fh. int i \<le> fst fh) (fingers (bs ! k)) =
           (int k - 1, hid cls H (bs ! (k - 1)))
           # filter (\<lambda>fh. int i \<le> fst fh)
               (filter (\<lambda>f. fst f \<in> skipchain_indices (int k)) (fingers (bs ! (k - 1))))"
  using linked_fingers [OF assms(1,2)] assms(3) by simp

lemma get_block_by_hid_cached:
  "cache c h = Some b \<Longrightarrow> get_block_by_hid cls H c h = Inr (Some b, c)"
  by (simp add: get_block_by_hid_def)

lemma follow_fingers_cached:
  assumes l: "linked cls H bs" and h: "holds cls H bs c"
  shows "k < length bs \<Longrightarrow> i \<le> k \<Longrightarrow>
         follow_fingers cls H (int i) re (hid cls H (bs ! k)) (Some (bs ! k)) ev c =
           Some (Inr (if re then FoundWithEvidence (bs ! i) (visited cls H bs i k ev)
                      else Found (bs ! i), c))"
proof (induction k arbitrary: ev)
  case 0
  then have "i = 0" by simp
  moreover have "index (bs ! 0) = 0" using linked_index [OF l "0.prems"(1)] by simp
  ultimately show ?case
    by (subst follow_fingers.simps) (simp add: visited_same)
next
  case (Suc k)
  have ik: "index (bs ! Suc k) = int (Suc k)" by (rule linked_index [OF l Suc.prems(1)])
  show ?case
  proof (cases "i = Suc k")
    case True
    with ik show ?thesis
      by (subst follow_fingers.simps) (simp add: visited_same)
  next
    case False
    with Suc.prems have le: "i \<le> k" and lt: "i < Suc k" and kl: "k < length bs" by simp_all
    have ne: "int i \<noteq> index (bs ! Suc k)" using ik lt by simp
    have ff: "filter (\<lambda>fh. int i \<le> fst fh) (fingers (bs ! Suc k)) =
           (int k, hid cls H (bs ! k))
           # filter (\<lambda>fh. int i \<le> fst fh)
               (filter (\<lambda>f. fst f \<in> skipchain_indices (int (Suc k))) (fingers (bs ! k)))"
      using first_finger [OF l Suc.prems(1) lt] by simp
    have gb: "get_block_by_hid cls H c (hid cls H (bs ! k)) = Inr (Some (bs ! k), c)"
      by (rule get_block_by_hid_cached [OF holds_cache [OF h kl]])
    show ?thesis
      by (subst follow_fingers.simps)
        (simp add: ne ff gb Let_def Suc.IH [OF kl le] visited_Suc [OF le] del: of_nat_Suc)
  qed
qed

lemma get_block_by_index_cached:
  assumes l: "linked cls H bs" and h: "holds cls H bs c" and i: "i < length bs"
  shows "get_block_by_index cls H c (int i) re =
           Some (Inr (if re then FoundWithEvidence (bs ! i) (visited cls H bs i (length bs - 1) [])
                      else Found (bs ! i), c))"
proof -
  define n where "n = length bs - 1"
  from i have ne: "bs \<noteq> []" by auto
  then have n1: "n < length bs" by (simp add: n_def)
  have last: "last bs = bs ! n" using ne by (simp add: last_conv_nth n_def)
  have hd: "head c = Some (hid cls H (bs ! n))"
    using holds_head [OF h] ne last by simp
  have hb: "head_block cls H c = Inr (Some (bs ! n), c)"
    using head_block_holds [OF h] ne last by simp
  have il: "index (bs ! n) = int n"
    by (rule linked_index [OF l n1])
  have le: "i \<le> n" using i by (simp add: n_def)
  then have rg: "0 \<le> int i \<and> int i \<le> index (bs ! n)"
    using il by simp
  have "get_block_by_index cls H c (int i) re =
           Some (Inr (if re then FoundWithEvidence (bs ! i) (visited cls H bs i n [])
                      else Found (bs ! i), c))"
    unfolding get_block_by_index_def
    by (simp add: hd hb rg follow_fingers_cached [OF l h n1 le])
  then show ?thesis by (simp only: n_def)
qed

lemma update_fresh: "k \<notin> fst ` set al \<Longrightarrow> AList.update k v al = al @ [(k, v)]"
  by (induction al) auto

lemma fold_update_fresh:
  "distinct (map fst xs) \<Longrightarrow> fst ` set xs \<inter> fst ` set ev = {} \<Longrightarrow>
   fold (\<lambda>x e. AList.update (fst x) (snd x) e) xs ev = ev @ xs"
proof (induction xs arbitrary: ev)
  case Nil
  then show ?case by simp
next
  case (Cons x xs)
  from Cons.prems have fr: "fst x \<notin> fst ` set ev" by auto
  have u: "AList.update (fst x) (snd x) ev = ev @ [x]"
    using update_fresh [OF fr, of "snd x"] by simp
  have "fst ` set xs \<inter> fst ` set (ev @ [x]) = {}"
    using Cons.prems by auto
  with Cons.IH [of "ev @ [x]"] Cons.prems(1) show ?case
    by (simp add: u)
qed

lemma visited_fresh:
  assumes wb: "well_behaved cls H" and l: "linked cls H bs" and k: "k < length bs"
  shows "visited cls H bs i k [] = map (\<lambda>j. (hid cls H (bs ! j), bs ! j)) (rev [i..<Suc k])"
proof -
  let ?g = "\<lambda>j. (hid cls H (bs ! j), bs ! j)"
  have "inj_on (\<lambda>j. hid cls H (bs ! j)) (set (rev [i..<Suc k]))"
    by (rule inj_onI) (use k in \<open>auto intro!: linked_hid_inj [OF wb l]\<close>)
  then have d: "distinct (map fst (map ?g (rev [i..<Suc k])))"
    by (simp add: distinct_map comp_def del: upt_Suc)
  have "visited cls H bs i k [] =
          fold (\<lambda>x e. AList.update (fst x) (snd x) e) (map ?g (rev [i..<Suc k])) []"
    by (simp add: visited_def fold_map comp_def del: upt_Suc)
  also have "\<dots> = [] @ map ?g (rev [i..<Suc k])"
    by (rule fold_update_fresh [OF d]) simp
  finally show ?thesis by simp
qed

lemma SerializableBlock_well_behaved: "well_behaved SerializableBlock id"
  unfolding well_behaved_def collision_free_def codec_ok_def hook_ok_def
  by (simp add: SerializableBlock_def hid_def)

lemma fresh_chain_built:
  assumes wb: "well_behaved cls H" and init: "w r = Chain_init st"
  obtains bs w' where "append_blocks cls H r ps w = Inr (bs, w')" "length bs = length ps"
    "linked cls H bs" "holds cls H bs (w' r)"
  using append_blocks_fresh [of cls H w r st ps, OF wb init] by blast

text \<open>
  C1: after \<open>N\<close> blocks have been committed in order to a fresh chain, each made by
  \<open>make_next_block\<close> and committed, \<open>get_block_by_index i\<close> returns, for every \<open>i\<close>
  from 0 to \<open>N - 1\<close>, a block whose index is \<open>i\<close>: the \<open>i\<close>-th block committed.
\<close>

theorem get_block_by_index_finds:
  assumes "well_behaved cls H" and "w r = Chain_init st"
  shows "\<exists>bs w'. append_blocks cls H r ps w = Inr (bs, w') \<and> length bs = length ps
           \<and> (\<forall>i::int. 0 \<le> i \<and> i < int (length ps) \<longrightarrow>
                 (\<exists>b c'. get_block_by_index cls H (w' r) i False = Some (Inr (Found b, c'))
                    \<and> index b = i \<and> b = bs ! nat i))"
proof -
  from assms obtain bs w' where b: "append_blocks cls H r ps w = Inr (bs, w')"
    and n: "length bs = length ps" and l: "linked cls H bs" and h: "holds cls H bs (w' r)"
    by (rule fresh_chain_built [of cls H w r st ps])
  have "\<exists>b c'. get_block_by_index cls H (w' r) i False = Some (Inr (Found b, c'))
          \<and> index b = i \<and> b = bs ! nat i"
    if "0 \<le> i" "i < int (length ps)" for i :: int
  proof -
    from that n have k: "nat i < length bs" by simp
    from get_block_by_index_cached [OF l h k, of False] that(1)
    have "get_block_by_index cls H (w' r) i False = Some (Inr (Found (bs ! nat i), w' r))"
      by simp
    moreover have "index (bs ! nat i) = i"
      using linked_index [OF l k] that(1) by simp
    ultimately show ?thesis by blast
  qed
  with b n show ?thesis by blast
qed

theorem get_block_by_index_finds_witness:
  "well_behaved SerializableBlock id
   \<and> (\<exists>bs w'. append_blocks SerializableBlock id 0 [''Block 0'', ''Block 1'', ''Block 2'']
                 (\<lambda>_. Chain_init Map.empty) = Inr (bs, w')
         \<and> length bs = 3
         \<and> (\<exists>b c'. get_block_by_index SerializableBlock id (w' 0) 1 False = Some (Inr (Found b, c'))
               \<and> index b = 1 \<and> b = bs ! 1))"
proof -
  from get_block_by_index_finds
    [of SerializableBlock id "\<lambda>_. Chain_init Map.empty" 0 Map.empty
       "[''Block 0'', ''Block 1'', ''Block 2'']", OF SerializableBlock_well_behaved]
  obtain bs w' where
    a: "append_blocks SerializableBlock id 0 [''Block 0'', ''Block 1'', ''Block 2'']
          (\<lambda>_. Chain_init Map.empty) = Inr (bs, w')" "length bs = 3"
    and f: "\<forall>i::int. 0 \<le> i \<and> i < 3 \<longrightarrow>
          (\<exists>b c'. get_block_by_index SerializableBlock id (w' 0) i False = Some (Inr (Found b, c'))
             \<and> index b = i \<and> b = bs ! nat i)"
    by auto
  from f have "\<exists>b c'. get_block_by_index SerializableBlock id (w' 0) 1 False
      = Some (Inr (Found b, c')) \<and> index b = 1 \<and> b = bs ! nat 1"
    by (rule allE [where x = 1]) simp
  with a SerializableBlock_well_behaved show ?thesis by auto
qed

lemma pred_in_skipchain_indices: "idx - 1 \<in> skipchain_indices idx"
  unfolding skipchain_indices_def by (auto simp: image_iff intro!: bexI [of _ "0::nat"])

lemma linked_finger_targets:
  assumes l: "linked cls H bs" and k: "k < length bs" "0 < k"
  shows "fst ` set (fingers (bs ! k)) =
           skipchain_indices (int k) \<inter> ({int k - 1} \<union> fst ` set (fingers (bs ! (k - 1))))"
proof -
  have "fingers (bs ! k) = (int k - 1, hid cls H (bs ! (k - 1)))
          # filter (\<lambda>f. fst f \<in> skipchain_indices (int k)) (fingers (bs ! (k - 1)))"
    using linked_fingers [OF l k(1)] k(2) by simp
  then show ?thesis
    using pred_in_skipchain_indices [of "int k"] by auto
qed

text \<open>
  C3: in a chain built by \<open>make_next_block\<close> and \<open>commit\<close> alone, the block committed
  at an index \<open>k > 0\<close> (the block that \<open>get_block_by_index k\<close> finds) has as finger
  targets exactly the members of \<open>skipchain_indices k\<close> that are \<open>k - 1\<close> or a finger
  target of the block at index \<open>k - 1\<close>.
\<close>

theorem committed_finger_targets:
  assumes "well_behaved cls H" and "w r = Chain_init st"
  shows "\<exists>bs w'. append_blocks cls H r ps w = Inr (bs, w') \<and> length bs = length ps
           \<and> (\<forall>k. 0 < k \<and> k < length ps \<longrightarrow>
                 get_block_by_index cls H (w' r) (int k) False = Some (Inr (Found (bs ! k), w' r))
                 \<and> index (bs ! k) = int k
                 \<and> index (bs ! (k - 1)) = int k - 1
                 \<and> fst ` set (fingers (bs ! k)) =
                     skipchain_indices (int k)
                     \<inter> ({int k - 1} \<union> fst ` set (fingers (bs ! (k - 1)))))"
proof -
  from assms obtain bs w' where b: "append_blocks cls H r ps w = Inr (bs, w')"
    and n: "length bs = length ps" and l: "linked cls H bs" and h: "holds cls H bs (w' r)"
    by (rule fresh_chain_built [of cls H w r st ps])
  have "get_block_by_index cls H (w' r) (int k) False = Some (Inr (Found (bs ! k), w' r))
        \<and> index (bs ! k) = int k
        \<and> index (bs ! (k - 1)) = int k - 1
        \<and> fst ` set (fingers (bs ! k)) =
            skipchain_indices (int k) \<inter> ({int k - 1} \<union> fst ` set (fingers (bs ! (k - 1))))"
    if "0 < k" "k < length ps" for k
  proof -
    from that n have k: "k < length bs" and k1: "k - 1 < length bs" by simp_all
    have "index (bs ! (k - 1)) = int k - 1"
      using linked_index [OF l k1] that(1) by (simp add: of_nat_diff)
    with get_block_by_index_cached [OF l h k, of False] linked_index [OF l k]
      linked_finger_targets [OF l k that(1)]
    show ?thesis by simp
  qed
  with b n show ?thesis by blast
qed

theorem committed_finger_targets_witness:
  "well_behaved SerializableBlock id
   \<and> (\<exists>bs w'. append_blocks SerializableBlock id 0 [''Block 0'', ''Block 1'', ''Block 2'']
                 (\<lambda>_. Chain_init Map.empty) = Inr (bs, w')
         \<and> length bs = 3
         \<and> index (bs ! 2) = 2
         \<and> fst ` set (fingers (bs ! 2)) =
             skipchain_indices 2 \<inter> ({1} \<union> fst ` set (fingers (bs ! 1))))"
proof -
  from committed_finger_targets
    [of SerializableBlock id "\<lambda>_. Chain_init Map.empty" 0 Map.empty
       "[''Block 0'', ''Block 1'', ''Block 2'']", OF SerializableBlock_well_behaved]
  obtain bs w' where
    a: "append_blocks SerializableBlock id 0 [''Block 0'', ''Block 1'', ''Block 2'']
          (\<lambda>_. Chain_init Map.empty) = Inr (bs, w')" "length bs = 3"
    and f: "\<forall>k. 0 < k \<and> k < 3 \<longrightarrow>
                 get_block_by_index SerializableBlock id (w' 0) (int k) False
                   = Some (Inr (Found (bs ! k), w' 0))
                 \<and> index (bs ! k) = int k
                 \<and> index (bs ! (k - 1)) = int k - 1
                 \<and> fst ` set (fingers (bs ! k)) =
                     skipchain_indices (int k)
                     \<inter> ({int k - 1} \<union> fst ` set (fingers (bs ! (k - 1))))"
    by auto
  from f have "index (bs ! 2) = int 2
      \<and> fst ` set (fingers (bs ! 2)) =
          skipchain_indices (int 2) \<inter> ({int 2 - 1} \<union> fst ` set (fingers (bs ! (2 - 1))))"
    by (rule allE [where x = 2]) simp
  then have "index (bs ! 2) = 2
      \<and> fst ` set (fingers (bs ! 2)) =
          skipchain_indices 2 \<inter> ({1} \<union> fst ` set (fingers (bs ! 1)))"
    by simp
  with a SerializableBlock_well_behaved show ?thesis by blast
qed

lemma visited_indices:
  assumes wb: "well_behaved cls H" and l: "linked cls H bs" and k: "k < length bs"
  shows "map (index \<circ> snd) (visited cls H bs i k []) = map int (rev [i..<Suc k])"
proof -
  have "map (index \<circ> snd) (visited cls H bs i k []) = map (\<lambda>j. index (bs ! j)) (rev [i..<Suc k])"
    by (simp add: visited_fresh [OF wb l k] comp_def del: upt_Suc)
  also have "\<dots> = map int (rev [i..<Suc k])"
    by (rule map_cong [OF refl]) (use k in \<open>auto intro!: linked_index [OF l]\<close>)
  finally show ?thesis .
qed

lemma descending_indices:
  assumes "i < n"
  shows "sorted_wrt (>) (map int (rev [i..<n]))"
    and "\<forall>x \<in> set (map int (rev [i..<n])). int i \<le> x"
    and "last (map int (rev [i..<n])) = int i"
    and "hd (map int (rev [i..<n])) = int n - 1"
    and "length (map int (rev [i..<n])) = n - i"
proof -
  show "sorted_wrt (>) (map int (rev [i..<n]))"
    by (simp add: sorted_wrt_map sorted_wrt_rev)
  show "\<forall>x \<in> set (map int (rev [i..<n])). int i \<le> x"
    by auto
  from assms have ne: "[i..<n] \<noteq> []" by simp
  then show "last (map int (rev [i..<n])) = int i"
    using assms by (simp add: last_map last_rev hd_upt)
  show "hd (map int (rev [i..<n])) = int n - 1"
    using ne assms by (simp add: hd_map hd_rev of_nat_diff)
  show "length (map int (rev [i..<n])) = n - i"
    by simp
qed


text \<open>
  C7: in a chain built by \<open>make_next_block\<close> and \<open>commit\<close> alone, the loop of
  \<open>get_block_by_index\<close> returns for every index of the chain, with or without evidence.
  The evidence lists the blocks the loop went through, in order: their indices start at
  the head's, go down strictly, never below the index looked for, and end at it.
\<close>

theorem traversal_terminates:
  assumes "well_behaved cls H" and "w r = Chain_init st"
  shows "\<exists>bs w'. append_blocks cls H r ps w = Inr (bs, w') \<and> length bs = length ps
           \<and> (\<forall>i::int. 0 \<le> i \<and> i < int (length ps) \<longrightarrow>
                 get_block_by_index cls H (w' r) i False = Some (Inr (Found (bs ! nat i), w' r))
                 \<and> (\<exists>ev. get_block_by_index cls H (w' r) i True
                            = Some (Inr (FoundWithEvidence (bs ! nat i) ev, w' r))
                        \<and> map (index \<circ> snd) ev = map int (rev [nat i..<length ps])
                        \<and> sorted_wrt (>) (map (index \<circ> snd) ev)
                        \<and> (\<forall>x \<in> set (map (index \<circ> snd) ev). i \<le> x)
                        \<and> hd (map (index \<circ> snd) ev) = int (length ps) - 1
                        \<and> last (map (index \<circ> snd) ev) = i
                        \<and> length ev = length ps - nat i))"
proof -
  from assms obtain bs w' where b: "append_blocks cls H r ps w = Inr (bs, w')"
    and n: "length bs = length ps" and l: "linked cls H bs" and h: "holds cls H bs (w' r)"
    by (rule fresh_chain_built [of cls H w r st ps])
  have "get_block_by_index cls H (w' r) i False = Some (Inr (Found (bs ! nat i), w' r))
        \<and> (\<exists>ev. get_block_by_index cls H (w' r) i True
                   = Some (Inr (FoundWithEvidence (bs ! nat i) ev, w' r))
               \<and> map (index \<circ> snd) ev = map int (rev [nat i..<length ps])
               \<and> sorted_wrt (>) (map (index \<circ> snd) ev)
               \<and> (\<forall>x \<in> set (map (index \<circ> snd) ev). i \<le> x)
               \<and> hd (map (index \<circ> snd) ev) = int (length ps) - 1
               \<and> last (map (index \<circ> snd) ev) = i
               \<and> length ev = length ps - nat i)"
    if "0 \<le> i" "i < int (length ps)" for i :: int
  proof -
    define j where "j = nat i"
    define ev where "ev = visited cls H bs j (length bs - 1) []"
    from that n have k: "j < length bs" and ij: "int j = i" by (simp_all add: j_def)
    then have n1: "length bs - 1 < length bs" and sn: "Suc (length bs - 1) = length ps"
      using n by simp_all
    have f: "get_block_by_index cls H (w' r) i False = Some (Inr (Found (bs ! j), w' r))"
      using get_block_by_index_cached [OF l h k, of False] ij by simp
    have t: "get_block_by_index cls H (w' r) i True
               = Some (Inr (FoundWithEvidence (bs ! j) ev, w' r))"
      using get_block_by_index_cached [OF l h k, of True] ij by (simp add: ev_def)
    have m: "map (index \<circ> snd) ev = map int (rev [j..<length ps])"
      using visited_indices [OF assms(1) l n1, of j] by (simp only: ev_def sn)
    have lt: "j < length ps" using k n by simp
    note d = descending_indices [OF lt]
    have "sorted_wrt (>) (map (index \<circ> snd) ev)"
      and "\<forall>x \<in> set (map (index \<circ> snd) ev). i \<le> x"
      and "hd (map (index \<circ> snd) ev) = int (length ps) - 1"
      and "last (map (index \<circ> snd) ev) = i"
      using d(1-4) unfolding m ij by blast+
    moreover have "length ev = length ps - j"
      using arg_cong [OF m, of length] by simp
    ultimately show ?thesis using f t m unfolding j_def [symmetric] by blast
  qed
  with b n show ?thesis by blast
qed

theorem traversal_terminates_witness:
  "well_behaved SerializableBlock id
   \<and> (\<exists>bs w'. append_blocks SerializableBlock id 0 [''Block 0'', ''Block 1'', ''Block 2'']
                 (\<lambda>_. Chain_init Map.empty) = Inr (bs, w')
         \<and> (\<exists>ev. get_block_by_index SerializableBlock id (w' 0) 0 True
                    = Some (Inr (FoundWithEvidence (bs ! 0) ev, w' 0))
                \<and> map (index \<circ> snd) ev = [2, 1, 0]))"
proof -
  let ?ps = "[''Block 0'', ''Block 1'', ''Block 2'']"
  note t = traversal_terminates
    [of SerializableBlock id "\<lambda>_. Chain_init Map.empty" 0 Map.empty ?ps,
     OF SerializableBlock_well_behaved refl]
  have p: "(0::int) \<le> 0 \<and> (0::int) < int (length ?ps)" by simp
  from t p have "\<exists>bs w'. append_blocks SerializableBlock id 0 ?ps (\<lambda>_. Chain_init Map.empty)
                   = Inr (bs, w')
         \<and> (\<exists>ev. get_block_by_index SerializableBlock id (w' 0) 0 True
                    = Some (Inr (FoundWithEvidence (bs ! nat 0) ev, w' 0))
                \<and> map (index \<circ> snd) ev = map int (rev [nat 0..<length ?ps]))"
    by blast
  moreover have "map int (rev [nat 0..<length ?ps]) = [2, 1, 0]" by simp
  moreover have "nat 0 = 0" by simp
  ultimately have "\<exists>bs w'. append_blocks SerializableBlock id 0 ?ps (\<lambda>_. Chain_init Map.empty)
                   = Inr (bs, w')
         \<and> (\<exists>ev. get_block_by_index SerializableBlock id (w' 0) 0 True
                    = Some (Inr (FoundWithEvidence (bs ! 0) ev, w' 0))
                \<and> map (index \<circ> snd) ev = [2, 1, 0])"
    by (simp only:)
  with SerializableBlock_well_behaved show ?thesis by (rule conjI)
qed

lemma get_block_by_index_beyond:
  assumes l: "linked cls H bs" and h: "holds cls H bs c" and ne: "bs \<noteq> []"
    and out: "idx < 0 \<or> int (length bs) \<le> idx"
  shows "get_block_by_index cls H c idx re =
           Some (Inl (ValueError ''Block is beyond this chain head.''))"
proof -
  define n where "n = length bs - 1"
  from ne have n1: "n < length bs" by (simp add: n_def)
  have last: "last bs = bs ! n" using ne by (simp add: last_conv_nth n_def)
  have hd: "head c = Some (hid cls H (bs ! n))"
    using holds_head [OF h] ne last by simp
  have hb: "head_block cls H c = Inr (Some (bs ! n), c)"
    using head_block_holds [OF h] ne last by simp
  have il: "index (bs ! n) = int (length bs) - 1"
    using linked_index [OF l n1] ne by (cases bs) (simp_all add: n_def)
  have rg: "\<not> (0 \<le> idx \<and> idx \<le> index (bs ! n))"
    using out il by auto
  show ?thesis
    unfolding get_block_by_index_def by (simp add: hd hb rg)
qed

lemma get_block_by_index_no_head:
  "head c = None \<Longrightarrow> get_block_by_index cls H c idx re = Some (Inr (NoBlock, c))"
  by (simp add: get_block_by_index_def)

text \<open>
  C2, as stated, fails on the empty chain: \<open>get_block_by_index\<close> returns \<open>None\<close> there and
  raises nothing.
\<close>

theorem get_block_by_index_empty_counterexample:
  "get_block_by_index SerializableBlock id (Chain_init Map.empty) 0 False
     = Some (Inr (NoBlock, Chain_init Map.empty))
   \<and> get_block_by_index SerializableBlock id (Chain_init Map.empty) 0 False
     \<noteq> Some (Inl (ValueError ''Block is beyond this chain head.''))"
  by (simp add: get_block_by_index_def Chain_init_def)

text \<open>
  C2, amended: on a chain of \<open>N > 0\<close> committed blocks \<open>get_block_by_index\<close> raises the
  range error for every index below 0 and every index from \<open>N\<close> on; on the empty chain it
  returns \<open>None\<close> for every index, and raises nothing.
\<close>

theorem get_block_by_index_range:
  assumes "well_behaved cls H" and "w r = Chain_init st"
  shows "\<exists>bs w'. append_blocks cls H r ps w = Inr (bs, w')
           \<and> (ps \<noteq> [] \<longrightarrow>
                (\<forall>idx re. idx < 0 \<or> int (length ps) \<le> idx \<longrightarrow>
                   get_block_by_index cls H (w' r) idx re
                     = Some (Inl (ValueError ''Block is beyond this chain head.''))))
           \<and> (ps = [] \<longrightarrow>
                (\<forall>idx re. get_block_by_index cls H (w' r) idx re = Some (Inr (NoBlock, w' r))))"
proof -
  from assms obtain bs w' where b: "append_blocks cls H r ps w = Inr (bs, w')"
    and n: "length bs = length ps" and l: "linked cls H bs" and h: "holds cls H bs (w' r)"
    by (rule fresh_chain_built [of cls H w r st ps])
  have "get_block_by_index cls H (w' r) idx re
          = Some (Inl (ValueError ''Block is beyond this chain head.''))"
    if "ps \<noteq> []" "idx < 0 \<or> int (length ps) \<le> idx" for idx re
  proof -
    from that(1) n have "bs \<noteq> []" by auto
    then show ?thesis
      using get_block_by_index_beyond [OF l h] that(2) n by simp
  qed
  moreover have "get_block_by_index cls H (w' r) idx re = Some (Inr (NoBlock, w' r))"
    if "ps = []" for idx re
  proof -
    from that n have "bs = []" by simp
    with holds_head [OF h] have "head (w' r) = None" by simp
    then show ?thesis by (rule get_block_by_index_no_head)
  qed
  ultimately show ?thesis using b by blast
qed

theorem get_block_by_index_range_witness:
  "well_behaved SerializableBlock id
   \<and> (\<exists>bs w'. append_blocks SerializableBlock id 0 [''Block 0'', ''Block 1'', ''Block 2'']
                 (\<lambda>_. Chain_init Map.empty) = Inr (bs, w')
         \<and> get_block_by_index SerializableBlock id (w' 0) (- 1) False
             = Some (Inl (ValueError ''Block is beyond this chain head.''))
         \<and> get_block_by_index SerializableBlock id (w' 0) 3 False
             = Some (Inl (ValueError ''Block is beyond this chain head.'')))
   \<and> (\<exists>bs w'. append_blocks SerializableBlock id 0 [] (\<lambda>_. Chain_init Map.empty) = Inr (bs, w')
         \<and> get_block_by_index SerializableBlock id (w' 0) 0 False = Some (Inr (NoBlock, w' 0)))"
proof -
  from get_block_by_index_range
    [of SerializableBlock id "\<lambda>_. Chain_init Map.empty" 0 Map.empty
       "[''Block 0'', ''Block 1'', ''Block 2'']", OF SerializableBlock_well_behaved]
  obtain bs w' where
    a: "append_blocks SerializableBlock id 0 [''Block 0'', ''Block 1'', ''Block 2'']
          (\<lambda>_. Chain_init Map.empty) = Inr (bs, w')"
    and f: "\<forall>idx re. idx < 0 \<or> 3 \<le> idx \<longrightarrow>
               get_block_by_index SerializableBlock id (w' 0) idx re
                 = Some (Inl (ValueError ''Block is beyond this chain head.''))"
    by auto
  from f have
    "get_block_by_index SerializableBlock id (w' 0) (- 1) False
       = Some (Inl (ValueError ''Block is beyond this chain head.''))"
    "get_block_by_index SerializableBlock id (w' 0) 3 False
       = Some (Inl (ValueError ''Block is beyond this chain head.''))"
    by simp_all
  with a have one: "\<exists>bs w'.
      append_blocks SerializableBlock id 0 [''Block 0'', ''Block 1'', ''Block 2'']
        (\<lambda>_. Chain_init Map.empty) = Inr (bs, w')
      \<and> get_block_by_index SerializableBlock id (w' 0) (- 1) False
          = Some (Inl (ValueError ''Block is beyond this chain head.''))
      \<and> get_block_by_index SerializableBlock id (w' 0) 3 False
          = Some (Inl (ValueError ''Block is beyond this chain head.''))"
    by blast
  from get_block_by_index_range
    [of SerializableBlock id "\<lambda>_. Chain_init Map.empty" 0 Map.empty "[]",
     OF SerializableBlock_well_behaved]
  have two: "\<exists>bs w'.
      append_blocks SerializableBlock id 0 [] (\<lambda>_. Chain_init Map.empty) = Inr (bs, w')
      \<and> get_block_by_index SerializableBlock id (w' 0) 0 False = Some (Inr (NoBlock, w' 0))"
    by auto
  from one two SerializableBlock_well_behaved show ?thesis by blast
qed

section \<open>Evidence\<close>

lemma fold_serialized_lookup:
  assumes cf: "collision_free cls H"
  shows "\<forall>(h, b) \<in> set ev. h = hid cls H b \<Longrightarrow> (k, x) \<in> set ev \<Longrightarrow>
         fold (\<lambda>(h, block) m. m(h \<mapsto> serialize cls block)) ev m0 k = Some (serialize cls x)"
proof (induction ev arbitrary: m0 rule: rev_induct)
  case Nil
  then show ?case by simp
next
  case (snoc e ev)
  obtain h b where e: "e = (h, b)" by (cases e)
  from snoc.prems(1) e have hb: "h = hid cls H b" by simp
  from snoc.prems(1) have all: "\<forall>(h, b) \<in> set ev. h = hid cls H b" by simp
  show ?case
  proof (cases "k = h")
    case True
    from snoc.prems have "k = hid cls H x" by auto
    with True hb have "serialize cls b = serialize cls x"
      by (intro collision_freeD [OF cf]) simp
    with True e show ?thesis by simp
  next
    case False
    with snoc.prems(2) e have "(k, x) \<in> set ev" by auto
    from snoc.IH [OF all this] False e show ?thesis by simp
  qed
qed

lemma serialize_evidence_visited:
  assumes wb: "well_behaved cls H" and l: "linked cls H bs" and k: "k < length bs"
    and j: "i \<le> j" "j \<le> k"
  shows "serialize_evidence cls (visited cls H bs i k []) (hid cls H (bs ! j))
           = Some (serialize cls (bs ! j))"
proof -
  let ?ev = "map (\<lambda>j. (hid cls H (bs ! j), bs ! j)) (rev [i..<Suc k])"
  have a: "\<forall>(h, b) \<in> set ?ev. h = hid cls H b" by auto
  have "j \<in> set (rev [i..<Suc k])" using j by (simp del: upt_Suc)
  then have m: "(hid cls H (bs ! j), bs ! j) \<in> set ?ev"
    unfolding set_map by (rule imageI)
  show ?thesis
    unfolding serialize_evidence_def visited_fresh [OF wb l k]
    by (rule fold_serialized_lookup [OF well_behavedD(1) [OF wb] a m])
qed

lemma hid_roundtrip:
  assumes "codec_ok cls"
  shows "hid cls H (deserialize cls (serialize cls b)) = hid cls H b"
proof -
  have "serialize cls (deserialize cls (serialize cls b)) = serialize cls b"
    by (rule codec_ok_canonical [OF assms]) (simp_all add: codec_ok_roundtrip [OF assms])
  then show ?thesis by (simp add: hid_def)
qed

lemma get_block_by_hid_stored:
  assumes "cache c (hid cls H b) = None" "object_store c (hid cls H b) = Some (serialize cls b)"
  shows "get_block_by_hid cls H c (hid cls H b) =
           Inr (Some (deserialize cls (serialize cls b)),
                c\<lparr>cache := (cache c)(hid cls H b \<mapsto> deserialize cls (serialize cls b))\<rparr>)"
  using assms by (simp add: get_block_by_hid_def store_get_def check_hash_def hid_def Let_def)

lemma follow_fingers_stored:
  assumes wb: "well_behaved cls H" and l: "linked cls H bs"
  shows "k < length bs \<Longrightarrow> i \<le> k \<Longrightarrow>
         (\<forall>j. i \<le> j \<and> j < k \<longrightarrow> cache c (hid cls H (bs ! j)) = None
                                \<and> object_store c (hid cls H (bs ! j)) = Some (serialize cls (bs ! j))) \<Longrightarrow>
         index cur = index (bs ! k) \<Longrightarrow> fingers cur = fingers (bs ! k) \<Longrightarrow>
         hid cls H cur = hid cls H (bs ! k) \<Longrightarrow>
         \<exists>b' c'. follow_fingers cls H (int i) False h (Some cur) ev c = Some (Inr (Found b', c'))
                  \<and> index b' = int i \<and> hid cls H b' = hid cls H (bs ! i)"
proof (induction k arbitrary: cur c h ev)
  case 0
  then have "i = 0" by simp
  moreover have "index cur = 0" using linked_index [OF l "0.prems"(1)] "0.prems"(4) by simp
  ultimately show ?case using "0.prems"(6)
    by (subst follow_fingers.simps) simp
next
  case (Suc k)
  have ik: "index cur = int (Suc k)"
    using linked_index [OF l Suc.prems(1)] Suc.prems(4) by simp
  show ?case
  proof (cases "i = Suc k")
    case True
    with ik Suc.prems(6) show ?thesis
      by (subst follow_fingers.simps) simp
  next
    case False
    with Suc.prems have le: "i \<le> k" and lt: "i < Suc k" and kl: "k < length bs" by simp_all
    define nb where "nb = deserialize cls (serialize cls (bs ! k))"
    define c1 where "c1 = c\<lparr>cache := (cache c)(hid cls H (bs ! k) \<mapsto> nb)\<rparr>"
    note co = well_behavedD(2) [OF wb]
    have ne: "int i \<noteq> index cur" using ik lt by simp
    have ff: "filter (\<lambda>fh. int i \<le> fst fh) (fingers cur) =
           (int k, hid cls H (bs ! k))
           # filter (\<lambda>fh. int i \<le> fst fh)
               (filter (\<lambda>f. fst f \<in> skipchain_indices (int (Suc k))) (fingers (bs ! k)))"
      using first_finger [OF l Suc.prems(1) lt] Suc.prems(5) by simp
    from Suc.prems(3) le have
      "cache c (hid cls H (bs ! k)) = None"
      "object_store c (hid cls H (bs ! k)) = Some (serialize cls (bs ! k))"
      by simp_all
    then have gb: "get_block_by_hid cls H c (hid cls H (bs ! k)) = Inr (Some nb, c1)"
      unfolding nb_def c1_def by (rule get_block_by_hid_stored)
    have rest: "\<forall>j. i \<le> j \<and> j < k \<longrightarrow> cache c1 (hid cls H (bs ! j)) = None
                  \<and> object_store c1 (hid cls H (bs ! j)) = Some (serialize cls (bs ! j))"
    proof (intro allI impI)
      fix j assume j: "i \<le> j \<and> j < k"
      then have jl: "j < length bs" and jk: "j \<noteq> k" using kl by simp_all
      have "hid cls H (bs ! j) \<noteq> hid cls H (bs ! k)"
        using linked_hid_inj [OF wb l jl kl] jk by blast
      moreover from Suc.prems(3) j have
        "cache c (hid cls H (bs ! j)) = None
         \<and> object_store c (hid cls H (bs ! j)) = Some (serialize cls (bs ! j))"
        by simp
      ultimately show "cache c1 (hid cls H (bs ! j)) = None
         \<and> object_store c1 (hid cls H (bs ! j)) = Some (serialize cls (bs ! j))"
        by (simp add: c1_def)
    qed
    have n1: "index nb = index (bs ! k)" and n2: "fingers nb = fingers (bs ! k)"
      by (simp_all add: nb_def codec_ok_roundtrip [OF co])
    have n3: "hid cls H nb = hid cls H (bs ! k)"
      unfolding nb_def by (rule hid_roundtrip [OF co])
    from Suc.IH [OF kl le rest n1 n2 n3]
    obtain b' c' where
      "follow_fingers cls H (int i) False (hid cls H (bs ! k)) (Some nb) ev c1
         = Some (Inr (Found b', c'))"
      "index b' = int i" "hid cls H b' = hid cls H (bs ! i)"
      by blast
    then show ?thesis
      by (subst follow_fingers.simps) (simp add: ne ff gb)
  qed
qed


lemma get_block_by_index_replay:
  assumes wb: "well_behaved cls H" and l: "linked cls H bs" and i: "i < length bs"
  shows "\<exists>b' c'. get_block_by_index cls H
                    (replay_chain cls (Some (hid cls H (last bs)))
                       (visited cls H bs i (length bs - 1) []))
                    (int i) False
                  = Some (Inr (Found b', c'))
                \<and> index b' = int i \<and> hid cls H b' = hid cls H (bs ! i)"
proof -
  define n where "n = length bs - 1"
  define c2 where "c2 = replay_chain cls (Some (hid cls H (bs ! n))) (visited cls H bs i n [])"
  define nb where "nb = deserialize cls (serialize cls (bs ! n))"
  define c3 where "c3 = c2\<lparr>cache := (cache c2)(hid cls H (bs ! n) \<mapsto> nb)\<rparr>"
  note co = well_behavedD(2) [OF wb]
  from i have ne: "bs \<noteq> []" by auto
  then have n1: "n < length bs" by (simp add: n_def)
  have last: "last bs = bs ! n" using ne by (simp add: last_conv_nth n_def)
  have le: "i \<le> n" using i by (simp add: n_def)
  have hd: "head c2 = Some (hid cls H (bs ! n))"
    and ca: "cache c2 = Map.empty"
    and os: "object_store c2 = serialize_evidence cls (visited cls H bs i n [])"
    by (simp_all add: c2_def replay_chain_def Chain_init_def)
  have st: "object_store c2 (hid cls H (bs ! j)) = Some (serialize cls (bs ! j))"
    if "i \<le> j" "j \<le> n" for j
    unfolding os by (rule serialize_evidence_visited [OF wb l n1 that])
  have g1: "get_block_by_hid cls H c2 (hid cls H (bs ! n)) = Inr (Some nb, c3)"
    unfolding nb_def c3_def
    by (rule get_block_by_hid_stored) (simp_all add: ca st [OF le])
  have hb1: "head_block cls H c2 = Inr (Some nb, c3)"
    using g1 by (simp add: head_block_def hd)
  have hb2: "head_block cls H c3 = Inr (Some nb, c3)"
    by (simp add: head_block_def c3_def hd get_block_by_hid_def)
  have n1i: "index nb = index (bs ! n)" and n2: "fingers nb = fingers (bs ! n)"
    by (simp_all add: nb_def codec_ok_roundtrip [OF co])
  have n3: "hid cls H nb = hid cls H (bs ! n)"
    unfolding nb_def by (rule hid_roundtrip [OF co])
  have rg: "0 \<le> int i \<and> int i \<le> index nb"
    using n1i linked_index [OF l n1] le by simp
  have rest: "\<forall>j. i \<le> j \<and> j < n \<longrightarrow> cache c3 (hid cls H (bs ! j)) = None
                  \<and> object_store c3 (hid cls H (bs ! j)) = Some (serialize cls (bs ! j))"
  proof (intro allI impI)
    fix j assume j: "i \<le> j \<and> j < n"
    then have jl: "j < length bs" and jn: "j \<noteq> n" and jle: "j \<le> n" using n1 by simp_all
    have "hid cls H (bs ! j) \<noteq> hid cls H (bs ! n)"
      using linked_hid_inj [OF wb l jl n1] jn by blast
    then show "cache c3 (hid cls H (bs ! j)) = None
         \<and> object_store c3 (hid cls H (bs ! j)) = Some (serialize cls (bs ! j))"
      using st [of j] j jle by (simp add: c3_def ca)
  qed
  from follow_fingers_stored [OF wb l n1 le rest n1i n2 n3, of "hid cls H (bs ! n)" "[]"]
  obtain b' c' where
    "follow_fingers cls H (int i) False (hid cls H (bs ! n)) (Some nb) [] c3
       = Some (Inr (Found b', c'))"
    "index b' = int i" "hid cls H b' = hid cls H (bs ! i)"
    by blast
  then have "get_block_by_index cls H c2 (int i) False = Some (Inr (Found b', c'))
      \<and> index b' = int i \<and> hid cls H b' = hid cls H (bs ! i)"
    by (simp add: get_block_by_index_def hd hb1 hb2 rg)
  then show ?thesis
    unfolding c2_def last n_def by blast
qed

text \<open>
  C6: after \<open>N\<close> commits, for every index \<open>i\<close> of the chain, \<open>get_block_by_index\<close>
  with evidence returns a block and its evidence; a fresh chain with the same head, an
  empty cache and a store that holds only the serialised evidence then finds, for the
  same index, a block with the same hash. Every block of the replay is fetched from the
  store with its hash checked, and no check fails.
\<close>

theorem evidence_completeness:
  assumes "well_behaved cls H" and "w r = Chain_init st"
  shows "\<exists>bs w'. append_blocks cls H r ps w = Inr (bs, w')
           \<and> (\<forall>i::int. 0 \<le> i \<and> i < int (length ps) \<longrightarrow>
                 (\<exists>b ev c1. get_block_by_index cls H (w' r) i True
                              = Some (Inr (FoundWithEvidence b ev, c1))
                    \<and> (\<exists>b' c2. get_block_by_index cls H (replay_chain cls (head (w' r)) ev) i False
                                  = Some (Inr (Found b', c2))
                          \<and> hid cls H b' = hid cls H b \<and> index b' = i)))"
proof -
  from assms obtain bs w' where b: "append_blocks cls H r ps w = Inr (bs, w')"
    and n: "length bs = length ps" and l: "linked cls H bs" and h: "holds cls H bs (w' r)"
    by (rule fresh_chain_built [of cls H w r st ps])
  have "\<exists>b ev c1. get_block_by_index cls H (w' r) i True
                    = Some (Inr (FoundWithEvidence b ev, c1))
          \<and> (\<exists>b' c2. get_block_by_index cls H (replay_chain cls (head (w' r)) ev) i False
                        = Some (Inr (Found b', c2))
                \<and> hid cls H b' = hid cls H b \<and> index b' = i)"
    if "0 \<le> i" "i < int (length ps)" for i :: int
  proof -
    define j where "j = nat i"
    from that n have k: "j < length bs" and ij: "int j = i" by (simp_all add: j_def)
    then have ne: "bs \<noteq> []" by auto
    have hd: "head (w' r) = Some (hid cls H (last bs))"
      using holds_head [OF h] ne by simp
    have t: "get_block_by_index cls H (w' r) i True
               = Some (Inr (FoundWithEvidence (bs ! j) (visited cls H bs j (length bs - 1) []), w' r))"
      using get_block_by_index_cached [OF l h k, of True] ij by simp
    from get_block_by_index_replay [OF assms(1) l k]
    obtain b' c2 where
      "get_block_by_index cls H
         (replay_chain cls (head (w' r)) (visited cls H bs j (length bs - 1) [])) i False
         = Some (Inr (Found b', c2))"
      "index b' = i" "hid cls H b' = hid cls H (bs ! j)"
      unfolding hd ij by blast
    with t show ?thesis by blast
  qed
  with b show ?thesis by blast
qed

theorem evidence_completeness_witness:
  "well_behaved SerializableBlock id
   \<and> (\<exists>bs w'. append_blocks SerializableBlock id 0 [''Block 0'', ''Block 1'', ''Block 2'']
                 (\<lambda>_. Chain_init Map.empty) = Inr (bs, w')
         \<and> (\<exists>b ev c1. get_block_by_index SerializableBlock id (w' 0) 1 True
                        = Some (Inr (FoundWithEvidence b ev, c1))
               \<and> (\<exists>b' c2. get_block_by_index SerializableBlock id
                             (replay_chain SerializableBlock (head (w' 0)) ev) 1 False
                             = Some (Inr (Found b', c2))
                     \<and> hid SerializableBlock id b' = hid SerializableBlock id b
                     \<and> index b' = 1)))"
proof -
  let ?ps = "[''Block 0'', ''Block 1'', ''Block 2'']"
  note t = evidence_completeness
    [of SerializableBlock id "\<lambda>_. Chain_init Map.empty" 0 Map.empty ?ps,
     OF SerializableBlock_well_behaved refl]
  have p: "(0::int) \<le> 1 \<and> (1::int) < int (length ?ps)" by simp
  from t p have "\<exists>bs w'. append_blocks SerializableBlock id 0 ?ps (\<lambda>_. Chain_init Map.empty)
                   = Inr (bs, w')
         \<and> (\<exists>b ev c1. get_block_by_index SerializableBlock id (w' 0) 1 True
                        = Some (Inr (FoundWithEvidence b ev, c1))
               \<and> (\<exists>b' c2. get_block_by_index SerializableBlock id
                             (replay_chain SerializableBlock (head (w' 0)) ev) 1 False
                             = Some (Inr (Found b', c2))
                     \<and> hid SerializableBlock id b' = hid SerializableBlock id b
                     \<and> index b' = 1))"
    by blast
  with SerializableBlock_well_behaved show ?thesis by (rule conjI)
qed

end
